theory Spec2Isabelle
  imports Complex_Main
begin

section \<open>Float arithmetic\<close>

text \<open>
  The rate coefficients, the rates, the horizon and the clock of \<^verbatim>\<open>src/app.py\<close> are Python
  floats, that is IEEE 754 binary64 numbers. A float is read here as the real number it
  denotes, and each float operation returns the exact result rounded to the nearest number
  with a significand of 53 bits, a tie going to the even significand. \<open>fl\<close> is this rounding:
  \<open>expo x\<close> is the exponent \<open>e\<close> with \<open>2 powi e \<le> x < 2 powi (e + 1)\<close>, found by halving
  or doubling \<open>x\<close>, the spacing of the floats next to \<open>x\<close> is \<open>2 powi (e - 52)\<close>, and
  \<open>half_even\<close> rounds the scaled number to an integer.

  The exponent has no bounds here: overflow to infinity, infinities and NaN are outside this
  model. The lower bound of binary64 makes no difference to the operations of this program
  on binary64 inputs: a sum of two floats, and a product of a float with a count of at
  least 1, that lie below \<open>2 powi (- 1022)\<close> are multiples of \<open>2 powi (- 1074)\<close> with a
  significand of less than 53 bits, which both roundings leave as they are.
\<close>

function halvings :: "real \<Rightarrow> int" where
  "halvings x = (if 2 \<le> x then halvings (x / 2) + 1 else 0)"
  by pat_completeness auto
termination
  by (relation "measure (\<lambda>x. nat \<lfloor>x\<rfloor>)") (auto, linarith)

function doublings :: "real \<Rightarrow> int" where
  "doublings x = (if 0 < x \<and> x < 1 / 2 then doublings (2 * x) - 1 else - 1)"
  by pat_completeness auto
termination
proof (relation "measure (\<lambda>x. nat \<lceil>1 / x\<rceil>)")
  show "wf (measure (\<lambda>x. nat \<lceil>1 / x\<rceil>))" by simp
next
  fix x :: real
  assume "0 < x \<and> x < 1 / 2"
  then have big: "2 < 1 / x" by (simp add: field_simps)
  have "of_int \<lceil>1 / x / 2\<rceil> < 1 / x / 2 + 1" by linarith
  also from big have "\<dots> \<le> 1 / x" by simp
  also have "\<dots> \<le> of_int \<lceil>1 / x\<rceil>" by simp
  finally have "\<lceil>1 / x / 2\<rceil> < \<lceil>1 / x\<rceil>" by simp
  moreover from big have "0 < \<lceil>1 / x\<rceil>" by linarith
  moreover have "1 / (2 * x) = 1 / x / 2" by simp
  ultimately show "(2 * x, x) \<in> measure (\<lambda>x. nat \<lceil>1 / x\<rceil>)"
    by (simp add: mult.commute)
qed

definition expo :: "real \<Rightarrow> int" where
  "expo x = (if 1 \<le> x then halvings x else doublings x)"

definition half_even :: "real \<Rightarrow> int" where
  "half_even q =
     (let n = \<lfloor>q\<rfloor>; r = q - of_int n
      in if r < 1 / 2 then n else if 1 / 2 < r then n + 1 else if even n then n else n + 1)"

definition fl :: "real \<Rightarrow> real" where
  "fl x =
     (if x = 0 then 0
      else let u = 2 powi (expo \<bar>x\<bar> - 52)
           in sgn x * of_int (half_even (\<bar>x\<bar> / u)) * u)"

section \<open>The Gillespie simulation of the Lotka-Volterra model\<close>

text \<open>
  This part embeds the function \<open>gillespie_lv\<close> of \<^verbatim>\<open>src/app.py\<close>.

  \<^item> The population counts are Python integers: \<open>int\<close>. Where a count meets a float in a
    product, Python converts it to the nearest float first: \<open>fl (of_int n)\<close>.
  \<^item> The rate coefficients, the horizon and the clock are floats: real numbers, with \<open>fl\<close>
    around every product and every sum that the source computes on them. Comparisons of
    floats are exact.
  \<^item> The two calls to the random source in one loop iteration,
    \<^verbatim>\<open>np.random.exponential(1 / total_rate)\<close> and \<^verbatim>\<open>np.random.uniform(0, total_rate)\<close>,
    return values that the function does not compute. The random stream is therefore a
    parameter: \<open>rnd k\<close> is the pair of values returned by these two calls in iteration
    number \<open>k\<close> of the loop (the waiting time first, the uniform variate second).
    Both calls are taken to return a value: what the library does with a scale or a bound
    that it rejects is not part of the source.
  \<^item> The loop may run forever, so it is a partial function into \<open>option\<close>:
    \<open>None\<close> is a run that never returns.
\<close>

type_synonym draws = "nat \<Rightarrow> real \<times> real"

text \<open>
  The local variables of the function. \<open>clock\<close> is the variable \<^verbatim>\<open>t\<close>, \<open>times_buf\<close> is
  the list \<^verbatim>\<open>times\<close>, and \<open>drawn\<close> counts the loop iterations done so far, which is the
  position of the random stream.
\<close>

record sim =
  prey :: int
  pred :: int
  clock :: real
  times_buf :: "real list"
  prey_pop :: "int list"
  pred_pop :: "int list"
  drawn :: nat

text \<open>Lines 19 to 25: the state before the loop.\<close>

definition init :: "int \<Rightarrow> int \<Rightarrow> sim" where
  "init prey_init pred_init =
     \<lparr>prey = prey_init, pred = pred_init, clock = 0, times_buf = [0],
      prey_pop = [prey_init], pred_pop = [pred_init], drawn = 0\<rparr>"

text \<open>
  Lines 29 to 34: the list \<^verbatim>\<open>rates\<close>. \<^verbatim>\<open>b * prey * pred\<close> is \<^verbatim>\<open>(b * prey) * pred\<close>, two
  float products.
\<close>

definition rates :: "real \<Rightarrow> real \<Rightarrow> real \<Rightarrow> real \<Rightarrow> int \<Rightarrow> int \<Rightarrow> real list" where
  "rates a b c d x y =
     [fl (a * fl (of_int x)),
      fl (fl (b * fl (of_int x)) * fl (of_int y)),
      fl (c * fl (of_int y)),
      fl (fl (d * fl (of_int x)) * fl (of_int y))]"

text \<open>
  Line 35: \<^verbatim>\<open>total_rate = sum(rates)\<close>. The builtin \<^verbatim>\<open>sum\<close> is read as what it is up to
  Python 3.11: it starts from 0 and adds the items from left to right, one float addition
  each. (From Python 3.12 on it carries a compensation term for floats, which is not
  modelled.)
\<close>

definition float_sum :: "real list \<Rightarrow> real" where
  "float_sum rs = foldl (\<lambda>acc r. fl (acc + r)) 0 rs"

definition total_rate :: "real \<Rightarrow> real \<Rightarrow> real \<Rightarrow> real \<Rightarrow> int \<Rightarrow> int \<Rightarrow> real" where
  "total_rate a b c d x y = float_sum (rates a b c d x y)"

text \<open>
  Lines 45 to 52: the chain of comparisons that picks the event, and the update each
  branch makes. The four branches are named after the comments of the source. The
  thresholds of lines 47 and 49 are float sums, added from left to right.
\<close>

datatype event = PreyBirth | Predation | PredatorDeath | PredatorReproduction

definition select_event :: "real list \<Rightarrow> real \<Rightarrow> event" where
  "select_event rs r =
     (if r < rs ! 0 then PreyBirth
      else if r < fl (rs ! 0 + rs ! 1) then Predation
      else if r < fl (fl (rs ! 0 + rs ! 1) + rs ! 2) then PredatorDeath
      else PredatorReproduction)"

fun apply_event :: "event \<Rightarrow> int \<times> int \<Rightarrow> int \<times> int" where
  "apply_event PreyBirth (x, y) = (x + 1, y)"
| "apply_event Predation (x, y) = (x - 1, y)"
| "apply_event PredatorDeath (x, y) = (x, y - 1)"
| "apply_event PredatorReproduction (x, y) = (x, y + 1)"

text \<open>Line 27: the condition of the \<^verbatim>\<open>while\<close> loop.\<close>

definition loop_cond :: "real \<Rightarrow> sim \<Rightarrow> bool" where
  "loop_cond max_time s \<longleftrightarrow> clock s < max_time \<and> 0 < prey s \<and> 0 < pred s"

text \<open>
  Lines 40 to 57: one iteration of the loop after the \<^verbatim>\<open>break\<close> test. Line 41,
  \<^verbatim>\<open>t += dt\<close>, is a float addition. The horizon \<^verbatim>\<open>max_time\<close> does not occur in the
  iteration.
\<close>

definition body :: "real \<Rightarrow> real \<Rightarrow> real \<Rightarrow> real \<Rightarrow> draws \<Rightarrow> sim \<Rightarrow> sim" where
  "body a b c d rnd s =
     (let rs = rates a b c d (prey s) (pred s);
          dt = fst (rnd (drawn s));
          t' = fl (clock s + dt);
          r = snd (rnd (drawn s));
          (prey', pred') = apply_event (select_event rs r) (prey s, pred s)
      in \<lparr>prey = prey', pred = pred', clock = t',
          times_buf = times_buf s @ [t'],
          prey_pop = prey_pop s @ [prey'],
          pred_pop = pred_pop s @ [pred'],
          drawn = Suc (drawn s)\<rparr>)"

text \<open>Lines 27 to 57: the loop, with the \<^verbatim>\<open>break\<close> of lines 36 and 37.\<close>

partial_function (option) run_loop ::
  "real \<Rightarrow> real \<Rightarrow> real \<Rightarrow> real \<Rightarrow> real \<Rightarrow> draws \<Rightarrow> sim \<Rightarrow> sim option" where
  "run_loop a b c d max_time rnd s =
     (if loop_cond max_time s then
        (if total_rate a b c d (prey s) (pred s) = 0 then Some s
         else run_loop a b c d max_time rnd (body a b c d rnd s))
      else Some s)"

text \<open>Lines 5 to 59: the function, returning the three parallel sequences of line 59.\<close>

type_synonym trajectory = "real list \<times> int list \<times> int list"

definition gillespie_lv ::
  "int \<Rightarrow> int \<Rightarrow> real \<Rightarrow> real \<Rightarrow> real \<Rightarrow> real \<Rightarrow> real \<Rightarrow> draws \<Rightarrow> trajectory option" where
  "gillespie_lv prey_init pred_init a b c d max_time rnd =
     map_option (\<lambda>s. (times_buf s, prey_pop s, pred_pop s))
       (run_loop a b c d max_time rnd (init prey_init pred_init))"

section \<open>Invariants of the loop\<close>

text \<open>
  The predicates below are the loop invariants used in the proofs. The first one says that
  the three buffers have one entry per iteration done plus the initial one, and that their
  last entries are the current values of \<^verbatim>\<open>t\<close>, \<^verbatim>\<open>prey\<close> and \<^verbatim>\<open>pred\<close>.
\<close>

definition in_step :: "sim \<Rightarrow> bool" where
  "in_step s \<longleftrightarrow>
     length (times_buf s) = Suc (drawn s) \<and> length (prey_pop s) = Suc (drawn s) \<and>
     length (pred_pop s) = Suc (drawn s) \<and>
     last (times_buf s) = clock s \<and> last (prey_pop s) = prey s \<and> last (pred_pop s) = pred s"

text \<open>The first entries of the buffers are the initial sample.\<close>

definition starts_at :: "int \<Rightarrow> int \<Rightarrow> sim \<Rightarrow> bool" where
  "starts_at x y s \<longleftrightarrow> hd (times_buf s) = 0 \<and> hd (prey_pop s) = x \<and> hd (pred_pop s) = y"

text \<open>No count, current or recorded, is negative.\<close>

definition nonneg :: "sim \<Rightarrow> bool" where
  "nonneg s \<longleftrightarrow> 0 \<le> prey s \<and> 0 \<le> pred s \<and> (\<forall>x \<in> set (prey_pop s). 0 \<le> x) \<and> (\<forall>y \<in> set (pred_pop s). 0 \<le> y)"

text \<open>Between two consecutive recorded samples one count moves by one, the other stays.\<close>

definition unit_steps :: "sim \<Rightarrow> bool" where
  "unit_steps s \<longleftrightarrow> in_step s \<and>
     (\<forall>i. Suc i < length (prey_pop s) \<longrightarrow>
        (prey_pop s ! Suc i = prey_pop s ! i + 1 \<and> pred_pop s ! Suc i = pred_pop s ! i) \<or>
        (prey_pop s ! Suc i = prey_pop s ! i - 1 \<and> pred_pop s ! Suc i = pred_pop s ! i) \<or>
        (prey_pop s ! Suc i = prey_pop s ! i \<and> pred_pop s ! Suc i = pred_pop s ! i - 1) \<or>
        (prey_pop s ! Suc i = prey_pop s ! i \<and> pred_pop s ! Suc i = pred_pop s ! i + 1))"

text \<open>
  Every recorded time is a float that is not negative, and each one after the first is the
  float sum of the one before it and the waiting time of its iteration.
\<close>

definition clock_steps :: "draws \<Rightarrow> sim \<Rightarrow> bool" where
  "clock_steps rnd s \<longleftrightarrow> in_step s \<and>
     (\<forall>i < length (times_buf s). fl (times_buf s ! i) = times_buf s ! i \<and> 0 \<le> times_buf s ! i) \<and>
     (\<forall>i. Suc i < length (times_buf s) \<longrightarrow>
        times_buf s ! Suc i = fl (times_buf s ! i + fst (rnd i)))"


section \<open>Concrete inputs\<close>

text \<open>
  Random streams for the concrete runs evaluated below: \<open>draws_of ps\<close> supplies the pairs
  of the list \<open>ps\<close> in order and the pair \<open>(1, 0)\<close> ever after. All the numbers in them are
  floats.
\<close>

definition draws_of :: "(real \<times> real) list \<Rightarrow> draws" where
  "draws_of ps k = (if k < length ps then ps ! k else (1, 0))"

definition mixed_draws :: draws where
  "mixed_draws = draws_of [(1/2, 5/2), (1/4, 7/2), (1/4, 1/2), (1, 7), (1/2, 9/2)]"

definition mixed_draws_then_other :: draws where
  "mixed_draws_then_other = draws_of [(1/2, 5/2), (1/4, 7/2), (1/4, 1/2), (1, 7), (1/2, 9/2), (3, 2), (5, 1)]"

definition steady_draws :: draws where
  "steady_draws k = (5/8, 0)"

text \<open>A stream whose second waiting time is positive and far below the spacing of the floats at 1.\<close>

definition tiny_wait_draws :: draws where
  "tiny_wait_draws = draws_of [(1, 0), (1 / 2 ^ 60, 0), (1, 0)]"



section \<open>Properties of the rounding\<close>

declare halvings.simps [simp del] doublings.simps [simp del]

lemma halvings_bounds:
  "1 \<le> x \<Longrightarrow> 2 powi halvings x \<le> x \<and> x < 2 powi (halvings x + 1)"
proof (induction x rule: halvings.induct)
  case (1 x)
  show ?case
  proof (cases "2 \<le> x")
    case True
    then have "1 \<le> x / 2" by simp
    from 1(1)[OF True this] have "2 powi halvings (x / 2) \<le> x / 2"
      and "x / 2 < 2 powi (halvings (x / 2) + 1)" by simp_all
    then have "2 * 2 powi halvings (x / 2) \<le> x" and "x < 2 * 2 powi (halvings (x / 2) + 1)"
      by simp_all
    moreover have "halvings x = halvings (x / 2) + 1"
      using True by (subst halvings.simps) simp
    ultimately show ?thesis by (simp add: power_int_add)
  next
    case False
    then have "halvings x = 0" by (subst halvings.simps) simp
    with False 1(2) show ?thesis by simp
  qed
qed

lemma doublings_bounds:
  "0 < x \<Longrightarrow> x < 1 \<Longrightarrow> 2 powi doublings x \<le> x \<and> x < 2 powi (doublings x + 1)"
proof (induction x rule: doublings.induct)
  case (1 x)
  show ?case
  proof (cases "0 < x \<and> x < 1 / 2")
    case True
    then have "0 < 2 * x" "2 * x < 1" by simp_all
    from 1(1)[OF True this] have "2 powi doublings (2 * x) \<le> 2 * x"
      and "2 * x < 2 powi (doublings (2 * x) + 1)" by simp_all
    moreover have "doublings x = doublings (2 * x) - 1"
      using True by (subst doublings.simps) simp
    ultimately show ?thesis by (simp add: power_int_diff power_int_add)
  next
    case False
    then have "doublings x = - 1" by (subst doublings.simps) (simp only: if_False)
    with False 1(2,3) show ?thesis by (simp add: power_int_minus)
  qed
qed

lemma expo_bounds:
  assumes "0 < x"
  shows "2 powi expo x \<le> x" and "x < 2 powi (expo x + 1)"
  using assms halvings_bounds[of x] doublings_bounds[of x]
  by (auto simp add: expo_def)

lemma expo_unique:
  assumes "0 < x" and "2 powi e \<le> x" and "x < 2 powi (e + 1)"
  shows "expo x = e"
proof -
  from expo_bounds[OF assms(1)] assms(2,3)
  have "(2::real) powi e < 2 powi (expo x + 1)" and "(2::real) powi expo x < 2 powi (e + 1)"
    by linarith+
  have "e < expo x + 1"
  proof (rule ccontr)
    assume "\<not> e < expo x + 1"
    then have "(2::real) powi (expo x + 1) \<le> 2 powi e"
      by (intro power_int_increasing) simp_all
    with \<open>(2::real) powi e < 2 powi (expo x + 1)\<close> show False by simp
  qed
  moreover have "expo x < e + 1"
  proof (rule ccontr)
    assume "\<not> expo x < e + 1"
    then have "(2::real) powi (e + 1) \<le> 2 powi expo x"
      by (intro power_int_increasing) simp_all
    with \<open>(2::real) powi expo x < 2 powi (e + 1)\<close> show False by simp
  qed
  ultimately show ?thesis by simp
qed

lemma half_even_of_int: "half_even (of_int n) = n"
  by (simp add: half_even_def)

lemma half_even_floor: "\<lfloor>q\<rfloor> \<le> half_even q" "half_even q \<le> \<lfloor>q\<rfloor> + 1"
  by (simp_all add: half_even_def Let_def)

lemma half_even_error: "\<bar>of_int (half_even q) - q\<bar> \<le> 1 / 2"
proof -
  have "of_int \<lfloor>q\<rfloor> \<le> q" "q < of_int \<lfloor>q\<rfloor> + 1" by linarith+
  then show ?thesis
    by (auto simp add: half_even_def Let_def)
qed

lemma half_even_mono:
  assumes "q1 \<le> q2"
  shows "half_even q1 \<le> half_even q2"
proof (cases "\<lfloor>q1\<rfloor> = \<lfloor>q2\<rfloor>")
  case True
  with assms show ?thesis
    by (auto simp add: half_even_def Let_def)
next
  case False
  with assms have "\<lfloor>q1\<rfloor> + 1 \<le> \<lfloor>q2\<rfloor>"
    using floor_mono[OF assms] by linarith
  with half_even_floor(2)[of q1] half_even_floor(1)[of q2] show ?thesis by linarith
qed

lemma half_even_ge: "of_int m \<le> q \<Longrightarrow> m \<le> half_even q"
  using half_even_mono[of "of_int m" q] by (simp add: half_even_of_int)

lemma half_even_le: "q \<le> of_int m \<Longrightarrow> half_even q \<le> m"
  using half_even_mono[of q "of_int m"] by (simp add: half_even_of_int)

lemma fl_zero [simp]: "fl 0 = 0"
  by (simp add: fl_def)

lemma fl_minus: "fl (- x) = - fl x"
  by (simp add: fl_def Let_def)

lemma fl_pos:
  assumes "0 < x" and "2 powi e \<le> x" and "x < 2 powi (e + 1)"
  shows "fl x = of_int (half_even (x / 2 powi (e - 52))) * 2 powi (e - 52)"
  using assms expo_unique[OF assms] by (simp add: fl_def Let_def)

lemma scaled_bounds:
  fixes x :: real
  assumes "2 powi e \<le> x" and "x < 2 powi (e + 1)"
  shows "2 ^ 52 \<le> x / 2 powi (e - 52)" and "x / 2 powi (e - 52) < 2 ^ 53"
proof -
  have u: "(0::real) < 2 powi (e - 52)" by simp
  have "(2::real) powi e = 2 ^ 52 * 2 powi (e - 52)"
    by (simp add: power_int_diff)
  with assms(1) u show "2 ^ 52 \<le> x / 2 powi (e - 52)"
    by (simp add: pos_le_divide_eq)
  have "(2::real) powi (e + 1) = 2 ^ 53 * 2 powi (e - 52)"
    by (simp add: power_int_diff power_int_add)
  with assms(2) u show "x / 2 powi (e - 52) < 2 ^ 53"
    by (simp add: pos_divide_less_eq)
qed

lemma fl_bounds:
  assumes "0 < x"
  shows "2 powi expo x \<le> fl x" and "fl x \<le> 2 powi (expo x + 1)"
proof -
  let ?e = "expo x"
  let ?u = "(2::real) powi (?e - 52)"
  let ?n = "half_even (x / ?u)"
  have u: "0 < ?u" by simp
  from expo_bounds[OF assms] have b: "2 powi ?e \<le> x" "x < 2 powi (?e + 1)" .
  have flx: "fl x = of_int ?n * ?u" by (rule fl_pos[OF assms b])
  from scaled_bounds[OF b] have "of_int (2 ^ 52) \<le> x / ?u" "x / ?u \<le> of_int (2 ^ 53)"
    by simp_all
  then have "2 ^ 52 \<le> ?n" "?n \<le> 2 ^ 53"
    by (simp_all only: half_even_ge half_even_le)
  then have "(2::real) ^ 52 \<le> of_int ?n" "of_int ?n \<le> (2::real) ^ 53"
    by (metis of_int_le_iff of_int_numeral of_int_power)+
  with u have "2 ^ 52 * ?u \<le> of_int ?n * ?u" "of_int ?n * ?u \<le> 2 ^ 53 * ?u"
    by simp_all
  moreover have "(2::real) powi ?e = 2 ^ 52 * ?u" by (simp add: power_int_diff)
  moreover have "(2::real) powi (?e + 1) = 2 ^ 53 * ?u"
    by (simp add: power_int_diff power_int_add)
  ultimately show "2 powi ?e \<le> fl x" and "fl x \<le> 2 powi (?e + 1)"
    using flx by simp_all
qed

lemma fl_nonneg: "0 \<le> x \<Longrightarrow> 0 \<le> fl x"
proof (cases "x = 0")
  case False
  assume "0 \<le> x"
  with False have "0 < x" by simp
  from fl_bounds(1)[OF this] have "(2::real) powi expo x \<le> fl x" .
  moreover have "(0::real) < 2 powi expo x" by simp
  ultimately show ?thesis by linarith
qed simp

lemma fl_pos_pos: "0 < x \<Longrightarrow> 0 < fl x"
proof -
  assume "0 < x"
  from fl_bounds(1)[OF this] have "(2::real) powi expo x \<le> fl x" .
  moreover have "(0::real) < 2 powi expo x" by simp
  ultimately show ?thesis by linarith
qed

lemma expo_mono:
  assumes "0 < x" and "x \<le> y"
  shows "expo x \<le> expo y"
proof (rule ccontr)
  assume "\<not> expo x \<le> expo y"
  then have "expo y + 1 \<le> expo x" by simp
  then have "(2::real) powi (expo y + 1) \<le> 2 powi expo x"
    by (intro power_int_increasing) simp_all
  moreover from assms have "0 < y" by simp
  note expo_bounds(2)[OF this] expo_bounds(1)[OF assms(1)]
  ultimately show False using assms(2) by linarith
qed

lemma fl_mono_pos:
  assumes "0 < x" and "x \<le> y"
  shows "fl x \<le> fl y"
proof -
  from assms have y: "0 < y" by simp
  show ?thesis
  proof (cases "expo x = expo y")
    case True
    let ?u = "(2::real) powi (expo y - 52)"
    have u: "0 < ?u" by simp
    from assms(2) u have "x / ?u \<le> y / ?u" by (simp add: divide_right_mono)
    then have "half_even (x / ?u) \<le> half_even (y / ?u)" by (rule half_even_mono)
    then have "(of_int (half_even (x / ?u)) :: real) \<le> of_int (half_even (y / ?u))" by simp
    with u have "of_int (half_even (x / ?u)) * ?u \<le> of_int (half_even (y / ?u)) * ?u"
      by simp
    with True assms(1) y show ?thesis by (simp add: fl_def Let_def)
  next
    case False
    with expo_mono[OF assms] have "expo x + 1 \<le> expo y" by simp
    then have "(2::real) powi (expo x + 1) \<le> 2 powi expo y"
      by (intro power_int_increasing) simp_all
    with fl_bounds(2)[OF assms(1)] fl_bounds(1)[OF y] show ?thesis by linarith
  qed
qed

lemma fl_mono: "x \<le> y \<Longrightarrow> fl x \<le> fl y"
proof -
  assume le: "x \<le> y"
  consider "0 < x" | "x \<le> 0" "0 \<le> y" | "y < 0" by linarith
  then show ?thesis
  proof cases
    case 1
    from this le show ?thesis by (rule fl_mono_pos)
  next
    case 2
    then have "0 \<le> fl (- x)" "0 \<le> fl y" by (simp_all add: fl_nonneg)
    then show ?thesis by (simp add: fl_minus)
  next
    case 3
    with le have "0 < - y" "- y \<le> - x" by simp_all
    then have "fl (- y) \<le> fl (- x)" by (rule fl_mono_pos)
    then show ?thesis by (simp add: fl_minus)
  qed
qed

lemma fl_repr_pos:
  assumes "0 < m" and "m < 2 ^ 53"
  shows "fl (of_int m * 2 powi k) = of_int m * 2 powi k"
proof -
  let ?x = "of_int m * (2::real) powi k"
  let ?e = "expo ?x"
  from assms(1) have x: "0 < ?x" by simp
  note b = expo_bounds[OF x]
  from assms(2) have "(of_int m :: real) < 2 ^ 53"
    by (metis of_int_less_iff of_int_numeral of_int_power)
  then have "?x < 2 ^ 53 * 2 powi k" by simp
  also have "\<dots> = 2 powi (53 + k)" by (simp add: power_int_add)
  finally have "(2::real) powi ?e < 2 powi (53 + k)" using b(1) by linarith
  have "?e < 53 + k"
  proof (rule ccontr)
    assume "\<not> ?e < 53 + k"
    then have "(2::real) powi (53 + k) \<le> 2 powi ?e"
      by (intro power_int_increasing) simp_all
    with \<open>(2::real) powi ?e < 2 powi (53 + k)\<close> show False by simp
  qed
  then have j: "0 \<le> k - ?e + 52" by simp
  have "?x / 2 powi (?e - 52) = of_int m * 2 powi (k - (?e - 52))"
    by (simp add: power_int_diff)
  also have "k - (?e - 52) = int (nat (k - ?e + 52))" using j by simp
  also have "of_int m * (2::real) powi int (nat (k - ?e + 52)) = of_int (m * 2 ^ nat (k - ?e + 52))"
    by (simp only: power_int_of_nat of_int_mult of_int_power of_int_numeral)
  finally have "half_even (?x / 2 powi (?e - 52)) = m * 2 ^ nat (k - ?e + 52)"
    by (simp only: half_even_of_int)
  then have "fl ?x = of_int (m * 2 ^ nat (k - ?e + 52)) * 2 powi (?e - 52)"
    using fl_pos[OF x b] by simp
  also have "\<dots> = of_int m * (2 powi int (nat (k - ?e + 52)) * 2 powi (?e - 52))"
    by (simp only: power_int_of_nat of_int_mult of_int_power of_int_numeral mult.assoc)
  also have "2 powi int (nat (k - ?e + 52)) * (2::real) powi (?e - 52) = 2 powi k"
    using j by (simp flip: power_int_add)
  finally show ?thesis .
qed

lemma fl_repr:
  assumes "\<bar>m\<bar> < 2 ^ 53"
  shows "fl (of_int m * 2 powi k) = of_int m * 2 powi k"
proof -
  consider "m = 0" | "0 < m" | "m < 0" by linarith
  then show ?thesis
  proof cases
    case 1
    then show ?thesis by simp
  next
    case 2
    with assms show ?thesis by (intro fl_repr_pos) simp_all
  next
    case 3
    with assms have "fl (of_int (- m) * 2 powi k) = of_int (- m) * 2 powi k"
      by (intro fl_repr_pos) simp_all
    then show ?thesis using fl_minus[of "of_int m * 2 powi k"] by simp
  qed
qed

lemma fl_of_int: "\<bar>m\<bar> < 2 ^ 53 \<Longrightarrow> fl (of_int m) = of_int m"
  using fl_repr[of m 0] by simp

lemma fl_dyadic: "\<bar>m\<bar> < 2 ^ 53 \<Longrightarrow> fl (of_int m / 2 ^ n) = of_int m / 2 ^ n"
  using fl_repr[of m "- int n"] by (simp add: power_int_minus field_simps)

lemma fl_idem_pos:
  assumes "0 < x"
  shows "fl (fl x) = fl x"
proof -
  let ?e = "expo x"
  let ?u = "(2::real) powi (?e - 52)"
  let ?n = "half_even (x / ?u)"
  note b = expo_bounds[OF assms]
  have flx: "fl x = of_int ?n * ?u" by (rule fl_pos[OF assms b])
  from scaled_bounds[OF b] have "of_int (2 ^ 52) \<le> x / ?u" "x / ?u \<le> of_int (2 ^ 53)"
    by simp_all
  then have n: "2 ^ 52 \<le> ?n" "?n \<le> 2 ^ 53"
    by (simp_all only: half_even_ge half_even_le)
  show ?thesis
  proof (cases "?n = 2 ^ 53")
    case True
    then have "fl x = of_int 1 * 2 powi (?e + 1)"
      using flx by (simp add: power_int_diff power_int_add)
    moreover have "fl (of_int 1 * 2 powi (?e + 1)) = of_int 1 * 2 powi (?e + 1)"
      by (rule fl_repr) simp
    ultimately show ?thesis by simp
  next
    case False
    with n have "\<bar>?n\<bar> < 2 ^ 53" by simp
    then have "fl (of_int ?n * ?u) = of_int ?n * ?u" by (rule fl_repr)
    with flx show ?thesis by simp
  qed
qed

lemma fl_idem [simp]: "fl (fl x) = fl x"
proof -
  consider "x = 0" | "0 < x" | "x < 0" by linarith
  then show ?thesis
  proof cases
    case 3
    then have "fl (fl (- x)) = fl (- x)" by (intro fl_idem_pos) simp
    then show ?thesis by (simp add: fl_minus)
  qed (simp_all add: fl_idem_pos)
qed

lemma fl_error:
  assumes "0 < x"
  shows "\<bar>fl x - x\<bar> \<le> x / 2 ^ 53"
proof -
  let ?e = "expo x"
  let ?u = "(2::real) powi (?e - 52)"
  let ?n = "half_even (x / ?u)"
  have u: "0 < ?u" by simp
  note b = expo_bounds[OF assms]
  have flx: "fl x = of_int ?n * ?u" by (rule fl_pos[OF assms b])
  have "fl x - x = (of_int ?n - x / ?u) * ?u"
    using u flx by (simp add: field_simps)
  then have "\<bar>fl x - x\<bar> = \<bar>of_int ?n - x / ?u\<bar> * ?u"
    using u by (simp add: abs_mult)
  also have "\<dots> \<le> 1 / 2 * ?u"
    using half_even_error[of "x / ?u"] u by (intro mult_right_mono) simp_all
  also have "1 / 2 * ?u = 2 powi ?e / 2 ^ 53"
    by (simp add: power_int_diff)
  also have "\<dots> \<le> x / 2 ^ 53"
    using b(1) by (simp add: divide_right_mono)
  finally show ?thesis .
qed

lemma fl_numeral: "numeral w < (2::int) ^ 53 \<Longrightarrow> fl (numeral w) = numeral w"
  using fl_of_int[of "numeral w"] by simp

lemma fl_one [simp]: "fl 1 = 1"
  using fl_of_int[of 1] by simp

lemma fl_add_ge:
  assumes "fl x = x" and "0 \<le> y"
  shows "x \<le> fl (x + y)"
proof -
  from assms(2) have "fl x \<le> fl (x + y)" by (intro fl_mono) simp
  with assms(1) show ?thesis by simp
qed

lemma fl_absorb: "fl (1 + 1 / 2 ^ 60) = 1"
proof -
  have "fl (1 + 1 / 2 ^ 60) =
      of_int (half_even ((1 + 1 / 2 ^ 60) / 2 powi (0 - 52))) * 2 powi (0 - 52)"
    by (rule fl_pos) simp_all
  also have "(1 + 1 / 2 ^ 60) / 2 powi (0 - 52) = (2 ^ 52 + 1 / 2 ^ 8 :: real)"
    by (simp add: power_int_minus field_simps)
  also have "half_even (2 ^ 52 + 1 / 2 ^ 8) = 2 ^ 52"
    by (simp add: half_even_def Let_def)
  finally show ?thesis by (simp add: power_int_minus)
qed

section \<open>Unfolding the loop\<close>

lemma run_loop_continue:
  "loop_cond max_time s \<Longrightarrow> total_rate a b c d (prey s) (pred s) \<noteq> 0 \<Longrightarrow>
   run_loop a b c d max_time rnd s = run_loop a b c d max_time rnd (body a b c d rnd s)"
  by (subst run_loop.simps) simp

lemma run_loop_exit:
  "\<not> loop_cond max_time s \<Longrightarrow> run_loop a b c d max_time rnd s = Some s"
  by (subst run_loop.simps) simp

lemma run_loop_break:
  "total_rate a b c d (prey s) (pred s) = 0 \<Longrightarrow> run_loop a b c d max_time rnd s = Some s"
  by (subst run_loop.simps) simp

lemma run_loop_rule_aux:
  assumes "run_loop a b c d max_time rnd s = Some s'"
  shows "(\<forall>u. I u \<and> loop_cond max_time u \<and> total_rate a b c d (prey u) (pred u) \<noteq> 0
        \<longrightarrow> I (body a b c d rnd u)) \<longrightarrow>
   I s \<longrightarrow>
   I s' \<and> (\<not> loop_cond max_time s' \<or> total_rate a b c d (prey s') (pred s') = 0)"
proof (rule run_loop.raw_induct[where P = "\<lambda>a b c d max_time rnd s s'.
   (\<forall>u. I u \<and> loop_cond max_time u \<and> total_rate a b c d (prey u) (pred u) \<noteq> 0
        \<longrightarrow> I (body a b c d rnd u)) \<longrightarrow>
   I s \<longrightarrow>
   I s' \<and> (\<not> loop_cond max_time s' \<or> total_rate a b c d (prey s') (pred s') = 0)", OF _ assms])
  fix approx :: "real \<Rightarrow> real \<Rightarrow> real \<Rightarrow> real \<Rightarrow> real \<Rightarrow> draws \<Rightarrow> sim \<Rightarrow> sim option"
  fix a b c d max_time rnd s s'
  assume IH: "\<And>a b c d max_time rnd s s'. approx a b c d max_time rnd s = Some s' \<Longrightarrow>
     (\<forall>u. I u \<and> loop_cond max_time u \<and> total_rate a b c d (prey u) (pred u) \<noteq> 0
        \<longrightarrow> I (body a b c d rnd u)) \<longrightarrow>
     I s \<longrightarrow>
     I s' \<and> (\<not> loop_cond max_time s' \<or> total_rate a b c d (prey s') (pred s') = 0)"
  assume unfolded: "(if loop_cond max_time s
      then if total_rate a b c d (prey s) (pred s) = 0 then Some s
           else approx a b c d max_time rnd (body a b c d rnd s)
      else Some s) = Some s'"
  show "(\<forall>u. I u \<and> loop_cond max_time u \<and> total_rate a b c d (prey u) (pred u) \<noteq> 0
        \<longrightarrow> I (body a b c d rnd u)) \<longrightarrow>
     I s \<longrightarrow>
     I s' \<and> (\<not> loop_cond max_time s' \<or> total_rate a b c d (prey s') (pred s') = 0)"
  proof (cases "loop_cond max_time s \<and> total_rate a b c d (prey s) (pred s) \<noteq> 0")
    case True
    with unfolded have "approx a b c d max_time rnd (body a b c d rnd s) = Some s'"
      by simp
    from IH[OF this] True show ?thesis by blast
  next
    case False
    with unfolded have "s' = s" by (auto split: if_splits)
    with False show ?thesis by blast
  qed
qed

lemma run_loop_rule:
  assumes "run_loop a b c d max_time rnd s = Some s'"
    and "I s"
    and "\<And>u. I u \<Longrightarrow> loop_cond max_time u \<Longrightarrow> total_rate a b c d (prey u) (pred u) \<noteq> 0
           \<Longrightarrow> I (body a b c d rnd u)"
  shows "I s'" and "\<not> loop_cond max_time s' \<or> total_rate a b c d (prey s') (pred s') = 0"
  using run_loop_rule_aux[OF assms(1), of I] assms(2,3) by blast+

lemma apply_event_cases:
  "apply_event e (x, y) = (x + 1, y) \<or> apply_event e (x, y) = (x - 1, y) \<or>
   apply_event e (x, y) = (x, y - 1) \<or> apply_event e (x, y) = (x, y + 1)"
  by (cases e) simp_all

lemma body_fields:
  "prey (body a b c d rnd s) =
     fst (apply_event (select_event (rates a b c d (prey s) (pred s)) (snd (rnd (drawn s)))) (prey s, pred s))"
  "pred (body a b c d rnd s) =
     snd (apply_event (select_event (rates a b c d (prey s) (pred s)) (snd (rnd (drawn s)))) (prey s, pred s))"
  "clock (body a b c d rnd s) = fl (clock s + fst (rnd (drawn s)))"
  "times_buf (body a b c d rnd s) = times_buf s @ [fl (clock s + fst (rnd (drawn s)))]"
  "prey_pop (body a b c d rnd s) = prey_pop s @ [prey (body a b c d rnd s)]"
  "pred_pop (body a b c d rnd s) = pred_pop s @ [pred (body a b c d rnd s)]"
  "drawn (body a b c d rnd s) = Suc (drawn s)"
  by (simp_all add: body_def Let_def split: prod.splits)

lemma in_step_init: "in_step (init x y)"
  by (simp add: in_step_def init_def)

lemma in_step_body: "in_step s \<Longrightarrow> in_step (body a b c d rnd s)"
  by (simp add: in_step_def body_fields)

lemma starts_at_body: "in_step s \<Longrightarrow> starts_at x y s \<Longrightarrow> starts_at x y (body a b c d rnd s)"
  by (auto simp add: in_step_def starts_at_def body_fields  hd_append)

lemma nonneg_body: "nonneg s \<Longrightarrow> loop_cond max_time s \<Longrightarrow> nonneg (body a b c d rnd s)"
  using apply_event_cases[of "select_event (rates a b c d (prey s) (pred s)) (snd (rnd (drawn s)))" "prey s" "pred s"]
  by (auto simp add: nonneg_def body_fields loop_cond_def)

lemma gillespie_lv_SomeD:
  assumes "gillespie_lv x y a b c d max_time rnd = Some (ts, xs, ys)"
  obtains s' where "run_loop a b c d max_time rnd (init x y) = Some s'"
    and "times_buf s' = ts" and "prey_pop s' = xs" and "pred_pop s' = ys"
  using assms by (auto simp add: gillespie_lv_def)

lemma run_in_step:
  assumes "run_loop a b c d max_time rnd (init x y) = Some s'"
  shows "in_step s'"
  using assms in_step_init by (rule run_loop_rule(1)[where I = in_step]) (rule in_step_body)

lemma unit_steps_init: "unit_steps (init x y)"
  by (simp add: unit_steps_def in_step_init) (simp add: init_def)

lemma unit_steps_body:
  assumes "unit_steps s"
  shows "unit_steps (body a b c d rnd s)"
proof -
  let ?e = "select_event (rates a b c d (prey s) (pred s)) (snd (rnd (drawn s)))"
  let ?s' = "body a b c d rnd s"
  from assms have sync: "in_step s" by (simp add: unit_steps_def)
  then have len: "length (prey_pop s) = Suc (drawn s)" "length (pred_pop s) = Suc (drawn s)"
    and lst: "last (prey_pop s) = prey s" "last (pred_pop s) = pred s"
    by (simp_all add: in_step_def)
  then have ne: "prey_pop s \<noteq> []" "pred_pop s \<noteq> []" by auto
  have new: "(prey ?s' = prey s + 1 \<and> pred ?s' = pred s) \<or>
        (prey ?s' = prey s - 1 \<and> pred ?s' = pred s) \<or>
        (prey ?s' = prey s \<and> pred ?s' = pred s - 1) \<or>
        (prey ?s' = prey s \<and> pred ?s' = pred s + 1)"
    using apply_event_cases[of ?e "prey s" "pred s"] by (auto simp add: body_fields)
  have "(prey_pop ?s' ! Suc i = prey_pop ?s' ! i + 1 \<and> pred_pop ?s' ! Suc i = pred_pop ?s' ! i) \<or>
        (prey_pop ?s' ! Suc i = prey_pop ?s' ! i - 1 \<and> pred_pop ?s' ! Suc i = pred_pop ?s' ! i) \<or>
        (prey_pop ?s' ! Suc i = prey_pop ?s' ! i \<and> pred_pop ?s' ! Suc i = pred_pop ?s' ! i - 1) \<or>
        (prey_pop ?s' ! Suc i = prey_pop ?s' ! i \<and> pred_pop ?s' ! Suc i = pred_pop ?s' ! i + 1)"
    if i: "Suc i < length (prey_pop ?s')" for i
  proof (cases "Suc i < length (prey_pop s)")
    case True
    with assms len show ?thesis
      by (simp add: unit_steps_def body_fields(5,6) nth_append)
  next
    case False
    with i have eq: "Suc i = length (prey_pop s)" by (simp add: body_fields(5))
    with len have eq': "Suc i = length (pred_pop s)" by simp
    have "prey_pop ?s' ! Suc i = prey ?s'" "pred_pop ?s' ! Suc i = pred ?s'"
      using eq eq' by (simp_all add: body_fields(5,6) nth_append)
    moreover from eq eq' have "i = length (prey_pop s) - 1" "i = length (pred_pop s) - 1"
      by simp_all
    with ne lst have "prey_pop s ! i = prey s" "pred_pop s ! i = pred s"
      by (simp_all add: last_conv_nth)
    with eq eq' have "prey_pop ?s' ! i = prey s" "pred_pop ?s' ! i = pred s"
      by (simp_all add: body_fields(5,6) nth_append)
    ultimately show ?thesis using new by simp
  qed
  with in_step_body[OF sync] show ?thesis
    unfolding unit_steps_def by blast
qed



lemma run_loop_prefix_aux:
  assumes "run_loop a b c d max_time rnd s = Some s'"
  shows "drawn s \<le> drawn s' \<and>
     ((\<forall>k. drawn s \<le> k \<and> k < drawn s' \<longrightarrow> rnd' k = rnd k) \<longrightarrow>
      run_loop a b c d max_time rnd' s = Some s')"
proof (rule run_loop.raw_induct[where P = "\<lambda>a b c d max_time rnd s s'.
     drawn s \<le> drawn s' \<and>
     ((\<forall>k. drawn s \<le> k \<and> k < drawn s' \<longrightarrow> rnd' k = rnd k) \<longrightarrow>
      run_loop a b c d max_time rnd' s = Some s')", OF _ assms])
  fix approx :: "real \<Rightarrow> real \<Rightarrow> real \<Rightarrow> real \<Rightarrow> real \<Rightarrow> draws \<Rightarrow> sim \<Rightarrow> sim option"
  fix a b c d max_time rnd s s'
  assume IH: "\<And>a b c d max_time rnd s s'. approx a b c d max_time rnd s = Some s' \<Longrightarrow>
     drawn s \<le> drawn s' \<and>
     ((\<forall>k. drawn s \<le> k \<and> k < drawn s' \<longrightarrow> rnd' k = rnd k) \<longrightarrow>
      run_loop a b c d max_time rnd' s = Some s')"
  assume unfolded: "(if loop_cond max_time s
      then if total_rate a b c d (prey s) (pred s) = 0 then Some s
           else approx a b c d max_time rnd (body a b c d rnd s)
      else Some s) = Some s'"
  show "drawn s \<le> drawn s' \<and>
     ((\<forall>k. drawn s \<le> k \<and> k < drawn s' \<longrightarrow> rnd' k = rnd k) \<longrightarrow>
      run_loop a b c d max_time rnd' s = Some s')"
  proof (cases "loop_cond max_time s \<and> total_rate a b c d (prey s) (pred s) \<noteq> 0")
    case True
    with unfolded have "approx a b c d max_time rnd (body a b c d rnd s) = Some s'"
      by simp
    from IH[OF this] have le: "Suc (drawn s) \<le> drawn s'"
      and rest: "(\<forall>k. Suc (drawn s) \<le> k \<and> k < drawn s' \<longrightarrow> rnd' k = rnd k) \<Longrightarrow>
        run_loop a b c d max_time rnd' (body a b c d rnd s) = Some s'"
      by (simp_all add: body_fields(7))
    have "run_loop a b c d max_time rnd' s = Some s'"
      if agree: "\<forall>k. drawn s \<le> k \<and> k < drawn s' \<longrightarrow> rnd' k = rnd k"
    proof -
      from agree le have "rnd' (drawn s) = rnd (drawn s)" by simp
      then have "body a b c d rnd' s = body a b c d rnd s" by (simp add: body_def)
      moreover from agree have "run_loop a b c d max_time rnd' (body a b c d rnd s) = Some s'"
        by (intro rest) simp
      ultimately show ?thesis using True by (simp add: run_loop_continue)
    qed
    with le show ?thesis by simp
  next
    case False
    with unfolded have "s' = s" by (auto split: if_splits)
    with False show ?thesis by (auto simp add: run_loop_exit run_loop_break)
  qed
qed

lemma run_starts_at:
  assumes "run_loop a b c d max_time rnd (init x y) = Some s'"
  shows "starts_at x y s'"
proof -
  have "in_step s' \<and> starts_at x y s'"
    using assms
  proof (rule run_loop_rule(1)[where I = "\<lambda>s. in_step s \<and> starts_at x y s"])
    show "in_step (init x y) \<and> starts_at x y (init x y)"
      by (simp add: in_step_init) (simp add: starts_at_def init_def)
  qed (simp add: in_step_body starts_at_body)
  then show ?thesis ..
qed

lemma nonneg_init: "0 \<le> x \<Longrightarrow> 0 \<le> y \<Longrightarrow> nonneg (init x y)"
  by (simp add: nonneg_def init_def)

lemma run_nonneg:
  assumes "run_loop a b c d max_time rnd (init x y) = Some s'" and "0 \<le> x" and "0 \<le> y"
  shows "nonneg s'"
  using assms(1) nonneg_init[OF assms(2,3)]
  by (rule run_loop_rule(1)[where I = nonneg]) (rule nonneg_body)

lemma run_stopped:
  assumes "run_loop a b c d max_time rnd s = Some s'"
  shows "\<not> loop_cond max_time s' \<or> total_rate a b c d (prey s') (pred s') = 0"
  using assms by (rule run_loop_rule(2)[where I = "\<lambda>_. True"]) simp_all

lemma clock_steps_init: "clock_steps rnd (init x y)"
  by (simp add: clock_steps_def in_step_init) (simp add: init_def)

lemma clock_steps_body:
  assumes "clock_steps rnd s" and "0 \<le> fst (rnd (drawn s))"
  shows "clock_steps rnd (body a b c d rnd s)"
proof -
  let ?ts = "times_buf s"
  let ?t' = "fl (clock s + fst (rnd (drawn s)))"
  from assms(1) have sync: "in_step s"
    and floats: "\<And>i. i < length ?ts \<Longrightarrow> fl (?ts ! i) = ?ts ! i \<and> 0 \<le> ?ts ! i"
    and sums: "\<And>i. Suc i < length ?ts \<Longrightarrow> ?ts ! Suc i = fl (?ts ! i + fst (rnd i))"
    by (simp_all add: clock_steps_def)
  from sync have len: "length ?ts = Suc (drawn s)" and lst: "last ?ts = clock s"
    by (simp_all add: in_step_def)
  then have cur: "?ts ! drawn s = clock s"
    by (metis diff_Suc_1 last_conv_nth length_0_conv nat.distinct(1))
  from floats[of "drawn s"] len cur have clk: "0 \<le> clock s" by simp
  with assms(2) have new: "fl ?t' = ?t'" "0 \<le> ?t'"
    by (simp_all add: fl_nonneg)
  have "fl ((?ts @ [?t']) ! i) = (?ts @ [?t']) ! i \<and> 0 \<le> (?ts @ [?t']) ! i"
    if "i < length (?ts @ [?t'])" for i
    using that floats[of i] new by (cases "i < length ?ts") (simp_all add: nth_append)
  moreover have "(?ts @ [?t']) ! Suc i = fl ((?ts @ [?t']) ! i + fst (rnd i))"
    if i: "Suc i < length (?ts @ [?t'])" for i
  proof (cases "Suc i < length ?ts")
    case True
    with sums[of i] show ?thesis by (simp add: nth_append)
  next
    case False
    with i len have "i = drawn s" by simp
    with len cur show ?thesis by (simp add: nth_append)
  qed
  ultimately show ?thesis
    using in_step_body[OF sync, of a b c d rnd]
    unfolding clock_steps_def body_fields(4) by blast
qed

lemma run_clock_steps:
  assumes "run_loop a b c d max_time rnd (init x y) = Some s'" and "\<forall>k. 0 \<le> fst (rnd k)"
  shows "clock_steps rnd s'"
  using assms(1) clock_steps_init
proof (rule run_loop_rule(1)[where I = "clock_steps rnd"])
  fix u assume "clock_steps rnd u"
  with assms(2) show "clock_steps rnd (body a b c d rnd u)"
    by (simp add: clock_steps_body)
qed

text \<open>A waiting time of at least \<open>t / 2 ^ 52\<close>, the spacing of the floats at \<open>t\<close>, is never absorbed.\<close>

lemma fl_add_gt:
  assumes "fl t = t" and "0 \<le> t" and "0 < dt" and "t / 2 ^ 52 \<le> dt"
  shows "t < fl (t + dt)"
proof (cases "t = 0")
  case True
  with assms(3) show ?thesis by (simp add: fl_pos_pos)
next
  case False
  with assms(2) have t: "0 < t" by simp
  let ?e = "expo t"
  let ?u = "(2::real) powi (?e - 52)"
  let ?n = "half_even (t / ?u)"
  have u: "0 < ?u" by simp
  note b = expo_bounds[OF t]
  from fl_pos[OF t b] assms(1) have tn: "t = of_int ?n * ?u" by simp
  from scaled_bounds[OF b] have "t / ?u \<le> of_int (2 ^ 53)" "of_int 0 \<le> t / ?u"
    using t by simp_all
  then have n: "?n \<le> 2 ^ 53" "0 \<le> ?n"
    by (simp_all only: half_even_ge half_even_le)
  have "?n \<noteq> 2 ^ 53"
  proof
    assume "?n = 2 ^ 53"
    with tn have "t = 2 powi (?e + 1)" by (simp add: power_int_diff power_int_add)
    with b(2) show False by simp
  qed
  with n have n': "0 \<le> ?n" "?n + 1 \<le> 2 ^ 53" by simp_all
  have next_float: "fl (t + ?u) = t + ?u"
  proof (cases "?n + 1 = 2 ^ 53")
    case True
    have "t + ?u = of_int (?n + 1) * ?u" using tn by (simp add: algebra_simps)
    also have "\<dots> = of_int 1 * 2 powi (?e + 1)"
      unfolding True by (simp add: power_int_diff power_int_add)
    finally have eq: "t + ?u = of_int 1 * 2 powi (?e + 1)" .
    have "fl (of_int 1 * 2 powi (?e + 1)) = of_int 1 * 2 powi (?e + 1)"
      by (rule fl_repr) simp
    with eq show ?thesis by simp
  next
    case False
    with n' have small: "\<bar>?n + 1\<bar> < 2 ^ 53" by simp
    have eq: "t + ?u = of_int (?n + 1) * ?u" using tn by (simp add: algebra_simps)
    from fl_repr[OF small, of "?e - 52"] eq show ?thesis by simp
  qed
  have "?u = 2 powi ?e / 2 ^ 52" by (simp add: power_int_diff)
  also from b(1) have "\<dots> \<le> t / 2 ^ 52" by (simp add: divide_right_mono)
  also note assms(4)
  finally have "t + ?u \<le> t + dt" by simp
  then have "fl (t + ?u) \<le> fl (t + dt)" by (rule fl_mono)
  with next_float u show ?thesis by linarith
qed

section \<open>Runs that return\<close>

text \<open>
  The loop need not end: waiting times that shrink fast enough keep the clock below the
  horizon for ever, and so do waiting times that the float addition of line 41 absorbs.
  The run returns when the waiting times have a lower bound \<open>\<delta>\<close> that is positive and not
  too small for the horizon: then every iteration moves the clock by \<open>\<delta> / 2\<close> at least.
\<close>

lemma clock_progress:
  assumes "0 < \<delta>" and "\<delta> \<le> dt" and "max_time + \<delta> \<le> \<delta> * 2 ^ 52"
    and "0 \<le> t" and "t < max_time"
  shows "t + \<delta> / 2 \<le> fl (t + dt)"
proof -
  let ?z = "t + \<delta>"
  from assms have z: "0 < ?z" by simp
  from fl_error[OF z] have "?z - ?z / 2 ^ 53 \<le> fl ?z" by linarith
  moreover from assms(5) have "?z / 2 ^ 53 \<le> (max_time + \<delta>) / 2 ^ 53"
    by (simp add: divide_right_mono)
  moreover from assms(3) have "(max_time + \<delta>) / 2 ^ 53 \<le> \<delta> * 2 ^ 52 / 2 ^ 53"
    by (simp add: divide_right_mono)
  moreover have "\<delta> * 2 ^ 52 / 2 ^ 53 = \<delta> / 2" by simp
  moreover from assms(2) have "fl ?z \<le> fl (t + dt)" by (intro fl_mono) simp
  ultimately show ?thesis by linarith
qed

lemma run_loop_returns:
  assumes "0 < \<delta>" and "\<forall>k. \<delta> \<le> fst (rnd k)" and "max_time + \<delta> \<le> \<delta> * 2 ^ 52"
    and "0 \<le> clock s"
  shows "\<exists>s'. run_loop a b c d max_time rnd s = Some s'"
  using assms(4)
proof (induction "nat \<lceil>(max_time - clock s) / (\<delta> / 2)\<rceil>" arbitrary: s rule: less_induct)
  case less
  show ?case
  proof (cases "loop_cond max_time s \<and> total_rate a b c d (prey s) (pred s) \<noteq> 0")
    case False
    then show ?thesis by (auto simp add: run_loop_exit run_loop_break)
  next
    case True
    let ?s' = "body a b c d rnd s"
    let ?h = "\<delta> / 2"
    from assms(1) have h: "0 < ?h" by simp
    from True have early: "clock s < max_time" by (simp add: loop_cond_def)
    with h have "0 < (max_time - clock s) / ?h" by simp
    then have pos: "1 \<le> \<lceil>(max_time - clock s) / ?h\<rceil>" by linarith
    from assms(2) have "\<delta> \<le> fst (rnd (drawn s))" by simp
    from clock_progress[OF assms(1) this assms(3) less(2) early]
    have step: "clock s + ?h \<le> clock ?s'" by (simp add: body_fields(3))
    with h less(2) have nn: "0 \<le> clock ?s'" by linarith
    from step have "max_time - clock ?s' \<le> (max_time - clock s) - ?h" by simp
    with h have "(max_time - clock ?s') / ?h \<le> ((max_time - clock s) - ?h) / ?h"
      by (simp only: divide_right_mono less_imp_le)
    also from h have "\<dots> = (max_time - clock s) / ?h - 1"
      by (simp add: diff_divide_distrib)
    finally have "\<lceil>(max_time - clock ?s') / ?h\<rceil> \<le> \<lceil>(max_time - clock s) / ?h - 1\<rceil>"
      by (rule ceiling_mono)
    then have "\<lceil>(max_time - clock ?s') / ?h\<rceil> \<le> \<lceil>(max_time - clock s) / ?h\<rceil> - 1"
      by simp
    with pos have "nat \<lceil>(max_time - clock ?s') / ?h\<rceil> < nat \<lceil>(max_time - clock s) / ?h\<rceil>"
      by linarith
    from less(1)[OF this nn] obtain s' where "run_loop a b c d max_time rnd ?s' = Some s'" ..
    with True show ?thesis by (simp add: run_loop_continue)
  qed
qed

lemma gillespie_lv_returns:
  assumes "0 < \<delta>" and "\<forall>k. \<delta> \<le> fst (rnd k)" and "max_time + \<delta> \<le> \<delta> * 2 ^ 52"
  shows "\<exists>tr. gillespie_lv prey_init pred_init a b c d max_time rnd = Some tr"
proof -
  have "0 \<le> clock (init prey_init pred_init)" by (simp add: init_def)
  from run_loop_returns[OF assms this, of a b c d]
  show ?thesis by (auto simp add: gillespie_lv_def)
qed

section \<open>Concrete runs\<close>

lemma fl_small_dyadics:
  "fl (1 / 2) = 1 / 2" "fl (1 / 4) = 1 / 4" "fl (3 / 4) = 3 / 4"
  "fl (5 / 2) = 5 / 2" "fl (5 / 8) = 5 / 8" "fl (5 / 4) = 5 / 4"
  using fl_dyadic[of 1 1] fl_dyadic[of 1 2] fl_dyadic[of 3 2]
    fl_dyadic[of 5 1] fl_dyadic[of 5 3] fl_dyadic[of 5 2]
  by simp_all

lemmas run_eval = gillespie_lv_def init_def run_loop_continue run_loop_exit run_loop_break
  loop_cond_def total_rate_def float_sum_def rates_def body_def select_event_def Let_def
  draws_of_def fl_numeral fl_small_dyadics

lemma mixed_run:
  "gillespie_lv 2 1 1 1 1 1 10 mixed_draws =
     Some ([0, 1/2, 3/4, 1, 2, 5/2], [2, 1, 1, 2, 2, 2], [1, 1, 2, 2, 1, 0])"
  by (simp add: run_eval mixed_draws_def)


lemma tiny_wait_run:
  "gillespie_lv 1 1 1 0 0 0 2 tiny_wait_draws = Some ([0, 1, 1, 2], [1, 2, 3, 4], [1, 1, 1, 1])"
proof -
  have "fl (1152921504606846977 / 1152921504606846976) = 1"
    using fl_absorb by simp
  then show ?thesis
    by (simp add: run_eval tiny_wait_draws_def)
qed

section \<open>The claims\<close>










text \<open>
  C2. From initial counts that are not negative the simulation returns a trajectory whose
  first sample is \<open>(0, prey_init, pred_init)\<close> and whose last sample satisfies a stop condition
  of the loop: the total rate is 0 there, or its time has reached \<open>max_time\<close>, or its prey
  count is 0, or its predator count is 0. A trajectory is returned whenever the waiting times
  have a positive lower bound \<open>\<delta>\<close> that the float clock cannot absorb below the horizon
  (\<open>max_time + \<delta> \<le> \<delta> * 2 ^ 52\<close>), and every trajectory that is returned, under any stream,
  has this shape. The bounds on the coefficients and on the horizon are not needed.
\<close>

theorem first_and_last_sample:
  assumes "0 \<le> prey_init" and "0 \<le> pred_init"
  shows "(0 < \<delta> \<and> (\<forall>k. \<delta> \<le> fst (rnd k)) \<and> max_time + \<delta> \<le> \<delta> * 2 ^ 52 \<longrightarrow>
          (\<exists>ts xs ys. gillespie_lv prey_init pred_init a b c d max_time rnd = Some (ts, xs, ys) \<and>
             ts \<noteq> [] \<and> length xs = length ts \<and> length ys = length ts \<and>
             (hd ts, hd xs, hd ys) = (0, prey_init, pred_init) \<and>
             (total_rate a b c d (last xs) (last ys) = 0 \<or> max_time \<le> last ts \<or>
              last xs = 0 \<or> last ys = 0))) \<and>
         (\<forall>ts xs ys. gillespie_lv prey_init pred_init a b c d max_time rnd = Some (ts, xs, ys) \<longrightarrow>
             ts \<noteq> [] \<and> length xs = length ts \<and> length ys = length ts \<and>
             (hd ts, hd xs, hd ys) = (0, prey_init, pred_init) \<and>
             (total_rate a b c d (last xs) (last ys) = 0 \<or> max_time \<le> last ts \<or>
              last xs = 0 \<or> last ys = 0))"
proof -
  have post: "ts \<noteq> [] \<and> length xs = length ts \<and> length ys = length ts \<and>
         (hd ts, hd xs, hd ys) = (0, prey_init, pred_init) \<and>
         (total_rate a b c d (last xs) (last ys) = 0 \<or> max_time \<le> last ts \<or>
          last xs = 0 \<or> last ys = 0)"
    if res: "gillespie_lv prey_init pred_init a b c d max_time rnd = Some (ts, xs, ys)"
    for ts xs ys
  proof -
    from res obtain s' where run: "run_loop a b c d max_time rnd (init prey_init pred_init) = Some s'"
      and bufs: "times_buf s' = ts" "prey_pop s' = xs" "pred_pop s' = ys"
      by (rule gillespie_lv_SomeD)
    from run_in_step[OF run] bufs
    have len: "length ts = Suc (drawn s')" "length xs = Suc (drawn s')" "length ys = Suc (drawn s')"
      and cur: "last ts = clock s'" "last xs = prey s'" "last ys = pred s'"
      by (simp_all add: in_step_def)
    from run_starts_at[OF run] bufs have first: "hd ts = 0" "hd xs = prey_init" "hd ys = pred_init"
      by (simp_all add: starts_at_def)
    from run_nonneg[OF run assms(1,2)] have nn: "0 \<le> prey s'" "0 \<le> pred s'"
      by (simp_all add: nonneg_def)
    from run_stopped[OF run] nn
    have "total_rate a b c d (prey s') (pred s') = 0 \<or> max_time \<le> clock s' \<or>
          prey s' = 0 \<or> pred s' = 0"
      by (auto simp add: loop_cond_def)
    with len cur first show ?thesis by auto
  qed
  show ?thesis
  proof (rule conjI; intro impI allI)
    assume "0 < \<delta> \<and> (\<forall>k. \<delta> \<le> fst (rnd k)) \<and> max_time + \<delta> \<le> \<delta> * 2 ^ 52"
    then obtain tr where "gillespie_lv prey_init pred_init a b c d max_time rnd = Some tr"
      using gillespie_lv_returns[of \<delta> rnd max_time prey_init pred_init a b c d] by blast
    then obtain ts xs ys where
      res: "gillespie_lv prey_init pred_init a b c d max_time rnd = Some (ts, xs, ys)"
      by (cases tr) auto
    from res post[OF res]
    show "\<exists>ts xs ys. gillespie_lv prey_init pred_init a b c d max_time rnd = Some (ts, xs, ys) \<and>
             ts \<noteq> [] \<and> length xs = length ts \<and> length ys = length ts \<and>
             (hd ts, hd xs, hd ys) = (0, prey_init, pred_init) \<and>
             (total_rate a b c d (last xs) (last ys) = 0 \<or> max_time \<le> last ts \<or>
              last xs = 0 \<or> last ys = 0)"
      by blast
  next
    fix ts xs ys
    assume "gillespie_lv prey_init pred_init a b c d max_time rnd = Some (ts, xs, ys)"
    then show "ts \<noteq> [] \<and> length xs = length ts \<and> length ys = length ts \<and>
         (hd ts, hd xs, hd ys) = (0, prey_init, pred_init) \<and>
         (total_rate a b c d (last xs) (last ys) = 0 \<or> max_time \<le> last ts \<or>
          last xs = 0 \<or> last ys = 0)"
      by (rule post)
  qed
qed

theorem first_and_last_sample_witness:
  "(0::int) \<le> 2 \<and> (0::int) \<le> 1 \<and> (0::real) < 1/4 \<and>
   1/4 \<le> fst (mixed_draws 0) \<and> 1/4 \<le> fst (mixed_draws 1) \<and> 1/4 \<le> fst (mixed_draws 7) \<and>
   (10::real) + 1/4 \<le> 1/4 * 2 ^ 52 \<and>
   gillespie_lv 2 1 1 1 1 1 10 mixed_draws =
     Some ([0, 1/2, 3/4, 1, 2, 5/2], [2, 1, 1, 2, 2, 2], [1, 1, 2, 2, 1, 0]) \<and>
   (hd [0, 1/2, 3/4, 1, 2, 5/2 :: real], hd [2, 1, 1, 2, 2, 2 :: int], hd [1, 1, 2, 2, 1, 0 :: int])
     = (0, 2, 1) \<and>
   last [1, 1, 2, 2, 1, 0 :: int] = 0"
proof -
  have low: "\<forall>k. 1/4 \<le> fst (mixed_draws k)"
    by (simp add: mixed_draws_def draws_of_def nth_Cons split: nat.split)
  from first_and_last_sample[of 2 1 "1/4" mixed_draws 10 1 1 1 1] low mixed_run
  show ?thesis by (simp add: mixed_draws_def draws_of_def)
qed

text \<open>
  C3. In a returned trajectory, between two consecutive samples exactly one of the two
  counts changes, by exactly \<open>+1\<close> or \<open>-1\<close>, and the other one is unchanged: one of the
  four updates of lines 46, 48, 50 and 52 has happened.
\<close>

theorem consecutive_samples_unit_step:
  assumes "gillespie_lv prey_init pred_init a b c d max_time rnd = Some (ts, xs, ys)"
    and "Suc i < length ts"
  shows "length xs = length ts \<and> length ys = length ts \<and>
         ((xs ! Suc i = xs ! i + 1 \<and> ys ! Suc i = ys ! i) \<or>
          (xs ! Suc i = xs ! i - 1 \<and> ys ! Suc i = ys ! i) \<or>
          (xs ! Suc i = xs ! i \<and> ys ! Suc i = ys ! i - 1) \<or>
          (xs ! Suc i = xs ! i \<and> ys ! Suc i = ys ! i + 1))"
proof -
  from assms(1) obtain s' where run: "run_loop a b c d max_time rnd (init prey_init pred_init) = Some s'"
    and bufs: "times_buf s' = ts" "prey_pop s' = xs" "pred_pop s' = ys"
    by (rule gillespie_lv_SomeD)
  have "unit_steps s'"
    using run unit_steps_init by (rule run_loop_rule(1)[where I = unit_steps]) (rule unit_steps_body)
  with bufs assms(2) show ?thesis
    by (simp add: unit_steps_def in_step_def)
qed

theorem consecutive_samples_unit_step_witness:
  "gillespie_lv 2 1 1 1 1 1 10 mixed_draws =
     Some ([0, 1/2, 3/4, 1, 2, 5/2], [2, 1, 1, 2, 2, 2], [1, 1, 2, 2, 1, 0]) \<and>
   Suc 3 < length [0, 1/2, 3/4, 1, 2, 5/2 :: real] \<and>
   [2, 1, 1, 2, 2, 2 :: int] ! Suc 3 = [2, 1, 1, 2, 2, 2] ! 3 \<and>
   [1, 1, 2, 2, 1, 0 :: int] ! Suc 3 = [1, 1, 2, 2, 1, 0] ! 3 - 1"
  using consecutive_samples_unit_step[of 2 1 1 1 1 1 10 mixed_draws _ _ _ 3, OF mixed_run] mixed_run
  by simp

text \<open>
  C4. From initial counts that are not negative, every sample of a returned trajectory has
  \<open>prey \<ge> 0\<close> and \<open>predator \<ge> 0\<close>, and wherever a count goes down from one sample to
  the next it was positive before: no decrement is applied to a count that is 0.
\<close>

theorem populations_never_negative:
  assumes "0 \<le> prey_init" and "0 \<le> pred_init"
    and "gillespie_lv prey_init pred_init a b c d max_time rnd = Some (ts, xs, ys)"
  shows "(\<forall>i < length xs. 0 \<le> xs ! i) \<and> (\<forall>i < length ys. 0 \<le> ys ! i) \<and>
         (\<forall>i. Suc i < length xs \<and> xs ! Suc i < xs ! i \<longrightarrow> 0 < xs ! i) \<and>
         (\<forall>i. Suc i < length ys \<and> ys ! Suc i < ys ! i \<longrightarrow> 0 < ys ! i)"
proof -
  from assms(3) obtain s' where run: "run_loop a b c d max_time rnd (init prey_init pred_init) = Some s'"
    and bufs: "times_buf s' = ts" "prey_pop s' = xs" "pred_pop s' = ys"
    by (rule gillespie_lv_SomeD)
  from run_nonneg[OF run assms(1,2)] bufs
  have nn: "\<forall>x \<in> set xs. 0 \<le> x" "\<forall>y \<in> set ys. 0 \<le> y"
    by (simp_all add: nonneg_def)
  then have at: "\<And>i. i < length xs \<Longrightarrow> 0 \<le> xs ! i" "\<And>i. i < length ys \<Longrightarrow> 0 \<le> ys ! i"
    by simp_all
  have "0 < xs ! i" if "Suc i < length xs" "xs ! Suc i < xs ! i" for i
    using at(1)[of "Suc i"] that by simp
  moreover have "0 < ys ! i" if "Suc i < length ys" "ys ! Suc i < ys ! i" for i
    using at(2)[of "Suc i"] that by simp
  ultimately show ?thesis using at by blast
qed

theorem populations_never_negative_witness:
  "(0::int) \<le> 2 \<and> (0::int) \<le> 1 \<and>
   gillespie_lv 2 1 1 1 1 1 10 mixed_draws =
     Some ([0, 1/2, 3/4, 1, 2, 5/2], [2, 1, 1, 2, 2, 2], [1, 1, 2, 2, 1, 0]) \<and>
   (0::int) \<le> [1, 1, 2, 2, 1, 0] ! 5 \<and>
   [1, 1, 2, 2, 1, 0 :: int] ! Suc 4 < [1, 1, 2, 2, 1, 0] ! 4 \<and> (0::int) < [1, 1, 2, 2, 1, 0] ! 4"
  using populations_never_negative[of 2 1 1 1 1 1 10 mixed_draws, OF _ _ mixed_run] mixed_run
  by simp

text \<open>
  C5. The claim is that the times of a returned trajectory increase strictly when every
  waiting time is strictly positive. They need not: line 41 adds floats, and a waiting time
  far below the spacing of the floats at the clock leaves the clock where it is. With the
  waiting times \<open>1\<close>, \<open>1 / 2 ^ 60\<close>, \<open>1\<close>, all positive, the second and the third sample both
  have the time 1.
\<close>

theorem times_strictly_increase_counterexample:
  "0 < fst (tiny_wait_draws 0) \<and> 0 < fst (tiny_wait_draws 1) \<and> 0 < fst (tiny_wait_draws 2) \<and>
   gillespie_lv 1 1 1 0 0 0 2 tiny_wait_draws = Some ([0, 1, 1, 2], [1, 2, 3, 4], [1, 1, 1, 1]) \<and>
   [0, 1, 1, 2 :: real] ! 1 = [0, 1, 1, 2] ! 2"
  using tiny_wait_run by (simp add: tiny_wait_draws_def draws_of_def)

text \<open>
  C5, as amended. When every waiting time supplied by the random source is strictly positive,
  the time of each sample of a returned trajectory after the first is the float sum of the
  time before it and the waiting time of its iteration; the times never decrease from a
  sample to the next; and they increase strictly at every step whose waiting time is at
  least \<open>1 / 2 ^ 52\<close> of the time before it. Two consecutive samples share a time only when
  the waiting time is smaller than that.
\<close>

theorem times_never_decrease:
  assumes "\<forall>k. 0 < fst (rnd k)"
    and "gillespie_lv prey_init pred_init a b c d max_time rnd = Some (ts, xs, ys)"
  shows "(\<forall>i. Suc i < length ts \<longrightarrow>
            ts ! Suc i = fl (ts ! i + fst (rnd i)) \<and> ts ! i \<le> ts ! Suc i \<and>
            (ts ! i / 2 ^ 52 \<le> fst (rnd i) \<longrightarrow> ts ! i < ts ! Suc i)) \<and>
         (\<forall>i j. i \<le> j \<and> j < length ts \<longrightarrow> ts ! i \<le> ts ! j)"
proof -
  from assms(2) obtain s' where run: "run_loop a b c d max_time rnd (init prey_init pred_init) = Some s'"
    and bufs: "times_buf s' = ts" "prey_pop s' = xs" "pred_pop s' = ys"
    by (rule gillespie_lv_SomeD)
  from assms(1) have "\<forall>k. 0 \<le> fst (rnd k)" by (simp add: less_imp_le)
  from run_clock_steps[OF run this] bufs
  have floats: "\<And>i. i < length ts \<Longrightarrow> fl (ts ! i) = ts ! i \<and> 0 \<le> ts ! i"
    and sums: "\<And>i. Suc i < length ts \<Longrightarrow> ts ! Suc i = fl (ts ! i + fst (rnd i))"
    by (simp_all add: clock_steps_def)
  have step: "ts ! Suc i = fl (ts ! i + fst (rnd i)) \<and> ts ! i \<le> ts ! Suc i \<and>
      (ts ! i / 2 ^ 52 \<le> fst (rnd i) \<longrightarrow> ts ! i < ts ! Suc i)"
    if i: "Suc i < length ts" for i
  proof -
    from i floats[of i] have f: "fl (ts ! i) = ts ! i" and nn: "0 \<le> ts ! i" by simp_all
    from assms(1) have pos: "0 < fst (rnd i)" by simp
    from fl_add_ge[OF f, of "fst (rnd i)"] pos have "ts ! i \<le> fl (ts ! i + fst (rnd i))"
      by simp
    moreover have "ts ! i < fl (ts ! i + fst (rnd i))" if "ts ! i / 2 ^ 52 \<le> fst (rnd i)"
      using f nn pos that by (rule fl_add_gt)
    ultimately show ?thesis using sums[OF i] by simp
  qed
  then have "\<forall>i. Suc i < length ts \<longrightarrow> ts ! i \<le> ts ! Suc i" by blast
  then have "sorted ts" by (simp only: sorted_iff_nth_Suc)
  then have "\<forall>i j. i \<le> j \<and> j < length ts \<longrightarrow> ts ! i \<le> ts ! j"
    by (simp add: sorted_iff_nth_mono)
  with step show ?thesis by blast
qed

theorem times_never_decrease_witness:
  "0 < fst (mixed_draws 0) \<and> 0 < fst (mixed_draws 4) \<and> 0 < fst (mixed_draws 9) \<and>
   gillespie_lv 2 1 1 1 1 1 10 mixed_draws =
     Some ([0, 1/2, 3/4, 1, 2, 5/2], [2, 1, 1, 2, 2, 2], [1, 1, 2, 2, 1, 0]) \<and>
   [0, 1/2, 3/4, 1, 2, 5/2 :: real] ! Suc 2 = fl ([0, 1/2, 3/4, 1, 2, 5/2] ! 2 + fst (mixed_draws 2)) \<and>
   [0, 1/2, 3/4, 1, 2, 5/2 :: real] ! 2 / 2 ^ 52 \<le> fst (mixed_draws 2) \<and>
   [0, 1/2, 3/4, 1, 2, 5/2 :: real] ! 2 < [0, 1/2, 3/4, 1, 2, 5/2] ! Suc 2"
proof -
  have pos: "\<forall>k. 0 < fst (mixed_draws k)"
    by (simp add: mixed_draws_def draws_of_def nth_Cons split: nat.split)
  from times_never_decrease[OF pos mixed_run] mixed_run pos show ?thesis
    by (simp add: mixed_draws_def draws_of_def)
qed



text \<open>
  C7. The input \<open>prey_init = 0\<close>, \<open>predator_init = 5\<close>, \<open>a = 1.0\<close>, \<open>b = 0.02\<close>,
  \<open>c = 1.0\<close>, \<open>d = 0.01\<close>, \<open>max_time = 50\<close>. The claim is that the run proceeds as pure
  predator decay and ends when the predator count reaches 0 or the time reaches 50. It does
  not: the returned trajectory ends at time 0 with 5 predators. (\<open>b\<close> and \<open>d\<close> only occur in
  products with the prey count 0, so that the rounding of \<open>0.02\<close> and \<open>0.01\<close> to floats plays
  no part.)
\<close>

theorem scenario_B_counterexample:
  "gillespie_lv 0 5 1 (2/100) 1 (1/100) 50 steady_draws = Some ([0], [0], [5]) \<and>
   total_rate 1 (2/100) 1 (1/100) 0 5 = 5 \<and>
   last [5 :: int] \<noteq> 0 \<and> last [0 :: real] < 50"
  by (simp add: run_eval)

text \<open>
  C7, as amended. For this input the total rate at the initial state is \<open>c * 5 = 5\<close>, all
  prey-dependent terms being 0, but the loop condition \<^verbatim>\<open>prey > 0\<close> of line 27 fails at its
  first test: no event occurs, and the returned trajectory is the single initial sample
  \<open>(0, 0, 5)\<close>, whatever the random stream.
\<close>

theorem scenario_B_single_sample:
  "total_rate 1 (2/100) 1 (1/100) 0 5 = 5 \<and>
   \<not> loop_cond 50 (init 0 5) \<and>
   gillespie_lv 0 5 1 (2/100) 1 (1/100) 50 rnd = Some ([0], [0], [5])"
  by (simp add: run_eval)

text \<open>
  C8. When one of the initial counts is 0, the loop condition fails at its first test and the
  run returns the trajectory that holds the initial sample alone, for every horizon, every
  coefficients and every random stream. No call of the random source is made.
\<close>

theorem degenerate_initial_state:
  assumes "prey_init = 0 \<or> pred_init = 0"
  shows "\<not> loop_cond max_time (init prey_init pred_init) \<and>
         gillespie_lv prey_init pred_init a b c d max_time rnd =
           Some ([0], [prey_init], [pred_init])"
proof -
  from assms have stop: "\<not> loop_cond max_time (init prey_init pred_init)"
    by (auto simp add: loop_cond_def init_def)
  then have "run_loop a b c d max_time rnd (init prey_init pred_init) =
      Some (init prey_init pred_init)"
    by (rule run_loop_exit)
  with stop show ?thesis
    by (simp add: gillespie_lv_def) (simp add: init_def)
qed

theorem degenerate_initial_state_witness:
  "((1::int) = 0 \<or> (0::int) = 0) \<and>
   gillespie_lv 1 0 1 0 0 0 100 steady_draws = Some ([0], [1], [0])"
  using degenerate_initial_state[of 1 0 100 1 0 0 0 steady_draws] by simp

text \<open>
  C9. With \<open>a = b = c = d = 0\<close> and positive initial counts the returned trajectory is the
  single sample \<open>(0, prey_init, pred_init)\<close>. The total rate is 0, and for a positive horizon
  the loop is entered, so that the \<^verbatim>\<open>break\<close> of line 37 is what stops the run.
\<close>

theorem all_rates_zero:
  assumes "0 < prey_init" and "0 < pred_init"
  shows "gillespie_lv prey_init pred_init 0 0 0 0 max_time rnd =
           Some ([0], [prey_init], [pred_init]) \<and>
         total_rate 0 0 0 0 prey_init pred_init = 0 \<and>
         (0 < max_time \<longrightarrow> loop_cond max_time (init prey_init pred_init))"
proof -
  have zero: "total_rate 0 0 0 0 (prey (init prey_init pred_init)) (pred (init prey_init pred_init)) = 0"
    by (simp add: total_rate_def float_sum_def rates_def)
  then have "run_loop 0 0 0 0 max_time rnd (init prey_init pred_init) =
      Some (init prey_init pred_init)"
    by (rule run_loop_break)
  then have "gillespie_lv prey_init pred_init 0 0 0 0 max_time rnd =
           Some ([0], [prey_init], [pred_init])"
    by (simp add: gillespie_lv_def) (simp add: init_def)
  moreover have "total_rate 0 0 0 0 prey_init pred_init = 0"
    by (simp add: total_rate_def float_sum_def rates_def)
  moreover from assms have "0 < max_time \<longrightarrow> loop_cond max_time (init prey_init pred_init)"
    by (simp add: loop_cond_def init_def)
  ultimately show ?thesis by blast
qed

theorem all_rates_zero_witness:
  "(0::int) < 50 \<and> (0::int) < 20 \<and>
   gillespie_lv 50 20 0 0 0 0 50 steady_draws = Some ([0], [50], [20]) \<and>
   loop_cond 50 (init 50 20)"
  using all_rates_zero[of 50 20 50 steady_draws] by simp

text \<open>
  C10. The result is a function of the eight inputs, the random stream being one of them: two
  runs on the same inputs and the same stream give the same result. Moreover a run that
  returns a trajectory of \<open>n + 1\<close> samples has read the first \<open>n\<close> pairs of the stream only:
  any stream that agrees with it on these pairs gives the same trajectory.
\<close>

theorem same_draws_same_trajectory:
  "((\<forall>k. rnd' k = rnd k) \<longrightarrow>
      gillespie_lv prey_init pred_init a b c d max_time rnd' =
      gillespie_lv prey_init pred_init a b c d max_time rnd) \<and>
   (gillespie_lv prey_init pred_init a b c d max_time rnd = Some (ts, xs, ys) \<and>
    (\<forall>k. Suc k < length ts \<longrightarrow> rnd' k = rnd k) \<longrightarrow>
      gillespie_lv prey_init pred_init a b c d max_time rnd' = Some (ts, xs, ys))"
proof (intro conjI impI)
  assume "\<forall>k. rnd' k = rnd k"
  then have "rnd' = rnd" by (simp add: fun_eq_iff)
  then show "gillespie_lv prey_init pred_init a b c d max_time rnd' =
      gillespie_lv prey_init pred_init a b c d max_time rnd"
    by simp
next
  assume both: "gillespie_lv prey_init pred_init a b c d max_time rnd = Some (ts, xs, ys) \<and>
    (\<forall>k. Suc k < length ts \<longrightarrow> rnd' k = rnd k)"
  then obtain s' where run: "run_loop a b c d max_time rnd (init prey_init pred_init) = Some s'"
    and bufs: "times_buf s' = ts" "prey_pop s' = xs" "pred_pop s' = ys"
    by (blast elim: gillespie_lv_SomeD)
  from run_in_step[OF run] bufs have "length ts = Suc (drawn s')"
    by (simp add: in_step_def)
  with both have "\<forall>k. drawn (init prey_init pred_init) \<le> k \<and> k < drawn s' \<longrightarrow> rnd' k = rnd k"
    by simp
  with run_loop_prefix_aux[OF run, of rnd']
  have "run_loop a b c d max_time rnd' (init prey_init pred_init) = Some s'"
    by blast
  with bufs show "gillespie_lv prey_init pred_init a b c d max_time rnd' = Some (ts, xs, ys)"
    by (simp add: gillespie_lv_def)
qed

theorem same_draws_same_trajectory_witness:
  "gillespie_lv 2 1 1 1 1 1 10 mixed_draws =
     Some ([0, 1/2, 3/4, 1, 2, 5/2], [2, 1, 1, 2, 2, 2], [1, 1, 2, 2, 1, 0]) \<and>
   mixed_draws_then_other 0 = mixed_draws 0 \<and> mixed_draws_then_other 4 = mixed_draws 4 \<and>
   mixed_draws_then_other 5 \<noteq> mixed_draws 5 \<and>
   gillespie_lv 2 1 1 1 1 1 10 mixed_draws_then_other =
     Some ([0, 1/2, 3/4, 1, 2, 5/2], [2, 1, 1, 2, 2, 2], [1, 1, 2, 2, 1, 0])"
proof -
  have agree: "\<forall>k. Suc k < length [0, 1/2, 3/4, 1, 2, 5/2 :: real] \<longrightarrow>
      mixed_draws_then_other k = mixed_draws k"
    by (simp add: mixed_draws_def mixed_draws_then_other_def draws_of_def nth_Cons split: nat.split)
  from same_draws_same_trajectory[of mixed_draws_then_other mixed_draws 2 1 1 1 1 1 10
      "[0, 1/2, 3/4, 1, 2, 5/2]" "[2, 1, 1, 2, 2, 2]" "[1, 1, 2, 2, 1, 0]"] mixed_run agree
  have "gillespie_lv 2 1 1 1 1 1 10 mixed_draws_then_other =
     Some ([0, 1/2, 3/4, 1, 2, 5/2], [2, 1, 1, 2, 2, 2], [1, 1, 2, 2, 1, 0])"
    by blast
  with mixed_run show ?thesis
    by (simp add: mixed_draws_def mixed_draws_then_other_def draws_of_def)
qed

end
